theory Spec2Isabelle
  imports Complex_Main
begin

section \<open>Python strings: \<open>str.split()\<close>, \<open>str.strip()\<close> and \<open>' '.join\<close>\<close>

text \<open>
  A Python \<open>str\<close> is a sequence of code points; a \<^typ>\<open>char\<close> stands for a code point
  below 256. \<open>isspace\<close> lists the code points of that range that \<open>str.isspace\<close> accepts;
  \<open>split()\<close> and \<open>strip()\<close> without arguments use the same set.
\<close>

definition isspace :: "char \<Rightarrow> bool" where
  "isspace c = (of_char c \<in> {9, 10, 11, 12, 13, 28, 29, 30, 31, 32, 133, 160 :: nat})"

text \<open>
  \<open>text.split()\<close>: runs of whitespace separate the words, and no empty word is produced.
  \<open>split_from cur cs\<close> scans \<open>cs\<close> with the word \<open>cur\<close> read so far.
\<close>

fun split_from :: "string \<Rightarrow> string \<Rightarrow> string list" where
  "split_from cur [] = (if cur = [] then [] else [cur])"
| "split_from cur (c # cs) =
     (if isspace c then (if cur = [] then split_from [] cs else cur # split_from [] cs)
      else split_from (cur @ [c]) cs)"

definition split :: "string \<Rightarrow> string list" where
  "split s = split_from [] s"

text \<open>\<open>s.strip()\<close> removes the whitespace at both ends.\<close>

definition strip :: "string \<Rightarrow> string" where
  "strip s = rev (dropWhile isspace (rev (dropWhile isspace s)))"

text \<open>\<open>' '.join(ws)\<close>.\<close>

fun join :: "string list \<Rightarrow> string" where
  "join [] = []"
| "join [w] = w"
| "join (w # v # ws) = w @ '' '' @ join (v # ws)"

section \<open>Fonts and configuration\<close>

text \<open>
  A font handle of PIL, as far as the layout code uses it: \<open>font.getlength(s)\<close> (a float,
  taken as a real number), \<open>font.getmetrics()\<close> (ascent and descent) and
  \<open>font.getbbox(s)\<close> (left, top, right, bottom).
\<close>

record font =
  getlength :: "string \<Rightarrow> real"
  getmetrics :: "int \<times> int"
  getbbox :: "string \<Rightarrow> int \<times> int \<times> int \<times> int"

text \<open>
  \<open>ImageFont.truetype(CONFIG['font_path'], size)\<close>: the font at the given size, or
  \<open>None\<close> where PIL raises \<open>IOError\<close>.
\<close>

type_synonym truetype = "int \<Rightarrow> font option"

record text_spacing =
  image_title :: int
  title_content :: int
  content_postid :: int

record config =
  canvas_size :: "int \<times> int"
  title_font_size :: int
  content_font_size_min :: int
  content_font_size_max :: int
  postid_font_size :: int
  image_top_margin :: int
  image_width :: int
  image_height :: int
  text_spacing :: text_spacing
  content_line_spacing_ratio :: real
  max_content_width :: int

definition CONFIG :: config where
  "CONFIG = \<lparr> canvas_size = (1080, 1920),
              title_font_size = 50,
              content_font_size_min = 20,
              content_font_size_max = 40,
              postid_font_size = 35,
              image_top_margin = 30,
              image_width = 1000,
              image_height = 400,
              text_spacing = \<lparr> image_title = 40, title_content = 15, content_postid = 15 \<rparr>,
              content_line_spacing_ratio = 2 / 10,
              max_content_width = 980 \<rparr>"

text \<open>
  The exceptions of the program: \<open>ValueError("Invalid font size ...")\<close>,
  \<open>ValueError("Post i missing required field: ...")\<close>, the \<open>IOError\<close> of
  \<open>ImageFont.truetype\<close> where it is not caught, \<open>KeyError\<close>, \<open>sys.exit(1)\<close>, the
  \<open>ValueError("Failed to download image: ...")\<close> of \<open>download_image\<close>, and the errors of
  the image file (\<open>FileNotFoundError\<close>, or what \<open>Image.open\<close> raises).
\<close>

datatype error =
    InvalidFontSize int
  | MissingField nat string
  | FontIOError int
  | KeyError string
  | SystemExit int
  | DownloadFailed
  | ImageFileError

section \<open>\<open>calculate_content_height\<close>\<close>

text \<open>
  The loop \<open>for word in words\<close> of \<open>calculate_content_height\<close>, with its two variables
  \<open>lines\<close> and \<open>current_line\<close>.
\<close>

fun content_wrap_loop ::
  "font \<Rightarrow> real \<Rightarrow> string list \<Rightarrow> string list \<Rightarrow> string list \<Rightarrow> string list \<times> string list"
where
  "content_wrap_loop f max_width [] lines current_line = (lines, current_line)"
| "content_wrap_loop f max_width (word # words) lines current_line =
     (let test_line = join (current_line @ [word]);
          test_width = getlength f test_line
      in if test_width \<le> max_width
         then content_wrap_loop f max_width words lines (current_line @ [word])
         else content_wrap_loop f max_width words (lines @ [join current_line]) [word])"

definition content_lines :: "font \<Rightarrow> string \<Rightarrow> real \<Rightarrow> string list" where
  "content_lines f content max_width =
     (case content_wrap_loop f max_width (split content) [] [] of
        (lines, current_line) \<Rightarrow>
          if current_line \<noteq> [] then lines @ [join current_line] else lines)"

definition calculate_content_height :: "truetype \<Rightarrow> string \<Rightarrow> int \<Rightarrow> real \<Rightarrow> error + real" where
  "calculate_content_height tt content font_size max_width =
     (case tt font_size of
        None \<Rightarrow> Inl (InvalidFontSize font_size)
      | Some f \<Rightarrow>
          let lines = content_lines f content max_width
          in if lines = [] then Inr 0
             else
               (case getmetrics f of
                  (ascent, descent) \<Rightarrow>
                    let line_height = ascent + descent;
                        line_spacing = real_of_int line_height * content_line_spacing_ratio CONFIG
                    in Inr (real_of_int (int (length lines) * line_height)
                            + real_of_int (int (length lines) - 1) * line_spacing)))"

section \<open>\<open>find_optimal_font_size\<close>\<close>

text \<open>
  The loop \<open>for _ in range(10)\<close>: the first argument counts the iterations left. The last
  argument records, in order, the sizes at which \<open>calculate_content_height\<close> has been
  called; the source does not keep it, and the result of the search does not depend on it.
\<close>

fun find_loop ::
  "truetype \<Rightarrow> string \<Rightarrow> real \<Rightarrow> real \<Rightarrow> nat \<Rightarrow> int \<Rightarrow> int \<Rightarrow> int \<Rightarrow> int list
     \<Rightarrow> error + (int \<times> int list)"
where
  "find_loop tt content max_width max_height 0 low high best_size probes =
     Inr (best_size, probes)"
| "find_loop tt content max_width max_height (Suc n) low high best_size probes =
     (if low > high then Inr (best_size, probes)
      else
        let mid = (low + high) div 2
        in case calculate_content_height tt content mid max_width of
             Inl e \<Rightarrow> Inl e
           | Inr content_height \<Rightarrow>
               if content_height \<le> max_height
               then find_loop tt content max_width max_height n (mid + 1) high mid (probes @ [mid])
               else find_loop tt content max_width max_height n low (mid - 1) best_size
                      (probes @ [mid]))"

definition find_optimal_font_size_probes ::
  "truetype \<Rightarrow> string \<Rightarrow> real \<Rightarrow> real \<Rightarrow> error + (int \<times> int list)" where
  "find_optimal_font_size_probes tt content max_width max_height =
     find_loop tt content max_width max_height 10
       (content_font_size_min CONFIG) (content_font_size_max CONFIG)
       (content_font_size_min CONFIG) []"

definition find_optimal_font_size :: "truetype \<Rightarrow> string \<Rightarrow> real \<Rightarrow> real \<Rightarrow> error + int" where
  "find_optimal_font_size tt content max_width max_height =
     (case find_optimal_font_size_probes tt content max_width max_height of
        Inl e \<Rightarrow> Inl e
      | Inr (best_size, probes) \<Rightarrow> Inr best_size)"

section \<open>\<open>draw_wrapped_text\<close>\<close>

text \<open>The first loop of \<open>draw_wrapped_text\<close>, with its variables \<open>lines\<close> and \<open>line\<close>.\<close>

fun draw_wrap_loop ::
  "font \<Rightarrow> real \<Rightarrow> string list \<Rightarrow> string list \<Rightarrow> string \<Rightarrow> string list \<times> string"
where
  "draw_wrap_loop f max_width [] lines line = (lines, line)"
| "draw_wrap_loop f max_width (word # words) lines line =
     (let test_line = strip (line @ '' '' @ word);
          test_line_width = getlength f test_line
      in if test_line_width \<le> max_width
         then draw_wrap_loop f max_width words lines test_line
         else draw_wrap_loop f max_width words (lines @ [line]) word)"

definition draw_lines :: "font \<Rightarrow> string \<Rightarrow> real \<Rightarrow> string list" where
  "draw_lines f txt max_width =
     (case draw_wrap_loop f max_width (split txt) [] [] of
        (lines, line) \<Rightarrow> if line \<noteq> [] then lines @ [line] else lines)"


definition bbox_bottom :: "int \<times> int \<times> int \<times> int \<Rightarrow> int" where
  "bbox_bottom bb = snd (snd (snd bb))"

text \<open>One call \<open>draw.text((x, y), line, font=font, fill=fill)\<close>.\<close>

record draw_text =
  at_x :: real
  at_y :: real
  line_text :: string

text \<open>
  The second loop: every line is drawn centred on the canvas, and the cursor \<open>y\<close> moves
  down by the bottom of the line's bounding box plus \<open>line_spacing\<close>.
\<close>

fun draw_loop :: "font \<Rightarrow> real \<Rightarrow> string list \<Rightarrow> real \<Rightarrow> draw_text list \<Rightarrow> real \<times> draw_text list"
where
  "draw_loop f line_spacing [] y drawn = (y, drawn)"
| "draw_loop f line_spacing (line # lines) y drawn =
     (let line_width = getlength f line;
          x = real_of_int \<lfloor>(real_of_int (fst (canvas_size CONFIG)) - line_width) / 2\<rfloor>
      in draw_loop f line_spacing lines
           (y + (real_of_int (bbox_bottom (getbbox f line)) + line_spacing))
           (drawn @ [\<lparr> at_x = x, at_y = y, line_text = line \<rparr>]))"

definition draw_wrapped_text ::
  "font \<Rightarrow> string \<Rightarrow> real \<Rightarrow> real \<Rightarrow> real \<Rightarrow> real \<times> draw_text list" where
  "draw_wrapped_text f txt position_y max_width line_spacing =
     draw_loop f line_spacing (draw_lines f txt max_width) position_y []"

section \<open>\<open>load_posts\<close>, \<open>generate_image\<close> and \<open>main\<close>\<close>

text \<open>A post is a JSON object: a dictionary from field names to values.\<close>

type_synonym post = "string \<rightharpoonup> string"

text \<open>What \<open>open\<close> and \<open>json.load\<close> find at \<open>json_path\<close>.\<close>

datatype json_file = FileNotFound | InvalidJSON | Posts "post list"

definition required_fields :: "string list" where
  "required_fields = [''title'', ''content'', ''post_id'', ''image'']"

definition censor_text :: "string \<Rightarrow> string" where
  "censor_text t = t"

text \<open>
  The inner loop \<open>for field in required_fields\<close>: the first field that is not in the
  post, if there is one.
\<close>

definition missing_field :: "post \<Rightarrow> string option" where
  "missing_field p = find (\<lambda>field. p field = None) required_fields"

text \<open>
  The loop \<open>for i, post in enumerate(posts)\<close>: the first post that lacks a required
  field raises, and the first such field is reported.
\<close>

fun load_posts_loop :: "nat \<Rightarrow> post list \<Rightarrow> error + post list" where
  "load_posts_loop i [] = Inr []"
| "load_posts_loop i (p # ps) =
     (case missing_field p of
        Some field \<Rightarrow> Inl (MissingField (i + 1) field)
      | None \<Rightarrow>
          (case (p ''title'', p ''content'') of
             (Some t, Some c) \<Rightarrow>
               (case load_posts_loop (i + 1) ps of
                  Inl e \<Rightarrow> Inl e
                | Inr ps' \<Rightarrow>
                    Inr (p(''title'' \<mapsto> censor_text t, ''content'' \<mapsto> censor_text c) # ps'))
           | _ \<Rightarrow> Inl (KeyError ''title'')))"

definition load_posts :: "json_file \<Rightarrow> error + post list" where
  "load_posts file =
     (case file of
        FileNotFound \<Rightarrow> Inl (SystemExit 1)
      | InvalidJSON \<Rightarrow> Inl (SystemExit 1)
      | Posts posts \<Rightarrow> load_posts_loop 0 posts)"

text \<open>
  \<open>generate_image\<close>. \<open>load_image\<close> stands for lines 181 to 194, which fetch the image of
  the post and paste it: \<open>download_image\<close>, the check that the file exists,
  \<open>Image.open\<close>, \<open>resize\<close>, \<open>paste\<close> and the removal of the file; it gives the exception
  raised there, or \<open>None\<close>. These lines do not move the cursor \<open>y_offset\<close>. A key that
  the post lacks raises \<open>KeyError\<close> of that key where the code first reads it. Every
  exception is printed and raised again. The result keeps \<open>max_content_height\<close> (the
  budget reserved for the body text), \<open>optimal_content_size\<close>, the cursor before and after
  the body text, and the calls of \<open>draw.text\<close> in order.
\<close>

record rendering =
  content_budget :: real
  content_size :: int
  content_top :: real
  content_bottom :: real
  drawn :: "draw_text list"


text \<open>
  The loop of \<open>main\<close>: \<open>process\<close> stands for the body of the \<open>try\<close> (image, file and
  video for one post). \<open>except Exception\<close> catches the exception of a post, and the loop
  goes on; it does not catch \<open>SystemExit\<close>, which ends the run. The result lists each
  post with its outcome, and \<open>success_count\<close>.
\<close>

fun main_loop :: "(post \<Rightarrow> error + unit) \<Rightarrow> post list \<Rightarrow> nat \<Rightarrow> (post \<times> (error + unit)) list
     \<Rightarrow> error + (nat \<times> (post \<times> (error + unit)) list)" where
  "main_loop process [] success_count done = Inr (success_count, done)"
| "main_loop process (p # posts) success_count done =
     (case process p of
        Inr u \<Rightarrow> main_loop process posts (success_count + 1) (done @ [(p, Inr u)])
      | Inl (SystemExit code) \<Rightarrow> Inl (SystemExit code)
      | Inl e \<Rightarrow> main_loop process posts success_count (done @ [(p, Inl e)]))"

text \<open>
  \<open>main\<close> calls \<open>load_posts\<close> outside the \<open>try\<close>: an exception of \<open>load_posts\<close> ends
  the run before the loop starts. \<open>setup_fonts\<close>, which follows \<open>load_posts\<close>, is taken to
  find the font file.
\<close>

definition main :: "(post \<Rightarrow> error + unit) \<Rightarrow> json_file
     \<Rightarrow> error + (nat \<times> (post \<times> (error + unit)) list)" where
  "main process file =
     (case load_posts file of
        Inl e \<Rightarrow> Inl e
      | Inr posts \<Rightarrow> main_loop process posts 0 [])"

section \<open>Predicates and example inputs\<close>

text \<open>A word, as \<open>split\<close> produces them: not empty and free of whitespace.\<close>

definition is_word :: "string \<Rightarrow> bool" where
  "is_word w = (w \<noteq> [] \<and> \<not> list_ex isspace w)"

text \<open>A line is within \<open>max_width\<close>, or it consists of exactly one word.\<close>

definition line_fits :: "font \<Rightarrow> real \<Rightarrow> string \<Rightarrow> bool" where
  "line_fits f max_width line = (getlength f line \<le> max_width \<or> length (split line) = 1)"

text \<open>
  An example font family: every character is half as wide as the font size, the ascent
  is the font size and the descent a quarter of it.
\<close>

definition fixed_width_font :: "int \<Rightarrow> font" where
  "fixed_width_font sz =
     \<lparr> getlength = (\<lambda>s. real_of_int (sz * int (length s)) / 2),
       getmetrics = (sz, sz div 4),
       getbbox = (\<lambda>s. (0, 0, (sz * int (length s) + 1) div 2, sz)) \<rparr>"

definition fixed_width :: truetype where
  "fixed_width sz = Some (fixed_width_font sz)"

text \<open>The font file is missing: no size can be loaded.\<close>

definition no_font :: truetype where
  "no_font sz = None"

text \<open>The example font family, but for one size that cannot be loaded.\<close>

definition fixed_width_except :: "int \<Rightarrow> truetype" where
  "fixed_width_except bad sz = (if sz = bad then None else Some (fixed_width_font sz))"





text \<open>A post with all required fields, a post without \<open>image\<close>, and a renderer that succeeds.\<close>

definition complete_post :: post where
  "complete_post = [''title'' \<mapsto> ''T'', ''content'' \<mapsto> ''some text'',
                    ''post_id'' \<mapsto> ''1'', ''image'' \<mapsto> ''http://example.org/i.png'']"

definition incomplete_post :: post where
  "incomplete_post = [''title'' \<mapsto> ''U'', ''content'' \<mapsto> ''more text'',
                      ''post_id'' \<mapsto> ''2'']"

definition process_ok :: "post \<Rightarrow> error + unit" where
  "process_ok p = Inr ()"

section \<open>Words, \<open>join\<close> and \<open>strip\<close>\<close>

lemma isspace_space: "isspace CHR '' ''"
  by (simp add: isspace_def)

lemma split_from_words:
  "\<not> list_ex isspace cur \<Longrightarrow> list_all is_word (split_from cur s)"
  by (induction s arbitrary: cur) (auto simp: is_word_def)

lemma split_words: "list_all is_word (split s)"
  by (simp add: split_def split_from_words)

lemma split_from_append:
  "\<not> list_ex isspace w \<Longrightarrow> split_from cur (w @ rest) = split_from (cur @ w) rest"
  by (induction w arbitrary: cur) auto

lemma split_from_word: "is_word w \<Longrightarrow> split_from [] w = [w]"
  using split_from_append [of w "[]" "[]"] by (simp add: is_word_def)

lemma split_join: "list_all is_word ws \<Longrightarrow> split (join ws) = ws"
proof (induction ws rule: join.induct)
  case 1
  show ?case by (simp add: split_def)
next
  case (2 w)
  then show ?case by (simp add: split_def split_from_word)
next
  case (3 w v ws)
  from 3 have w: "w \<noteq> []" "\<not> list_ex isspace w" by (simp_all add: is_word_def)
  from 3 have ih: "split_from [] (join (v # ws)) = v # ws" by (simp add: split_def)
  have "split_from [] (w @ CHR '' '' # join (v # ws)) = split_from w (CHR '' '' # join (v # ws))"
    using split_from_append [OF w(2), of "[]"] by simp
  also have "\<dots> = w # v # ws"
    using w(1) ih by (simp add: isspace_space)
  finally show ?case by (simp add: split_def)
qed

lemma join_snoc: "cur \<noteq> [] \<Longrightarrow> join (cur @ [w]) = join cur @ CHR '' '' # w"
  by (induction cur rule: join.induct) auto

lemma join_Nil_iff: "list_all is_word ws \<Longrightarrow> join ws = [] \<longleftrightarrow> ws = []"
  by (induction ws rule: join.induct) (auto simp: is_word_def)

lemma hd_join: "list_all is_word ws \<Longrightarrow> ws \<noteq> [] \<Longrightarrow> hd (join ws) = hd (hd ws)"
  by (induction ws rule: join.induct) (auto simp: is_word_def)

lemma last_join: "list_all is_word ws \<Longrightarrow> ws \<noteq> [] \<Longrightarrow> last (join ws) = last (last ws)"
proof (induction ws rule: join.induct)
  case (3 w v ws)
  then have "join (v # ws) \<noteq> []" using join_Nil_iff [of "v # ws"] by simp
  with 3 show ?case by simp
qed simp_all

lemma hd_word: "list_all is_word ws \<Longrightarrow> ws \<noteq> [] \<Longrightarrow> is_word (hd ws)"
  by (cases ws) simp_all

lemma strip_id: "s \<noteq> [] \<Longrightarrow> \<not> isspace (hd s) \<Longrightarrow> \<not> isspace (last s) \<Longrightarrow> strip s = s"
proof -
  assume a: "s \<noteq> []" "\<not> isspace (hd s)" "\<not> isspace (last s)"
  then have 1: "dropWhile isspace s = s" by (cases s) auto
  from a have "rev s \<noteq> []" "\<not> isspace (hd (rev s))" by (simp_all add: hd_rev)
  then have 2: "dropWhile isspace (rev s) = rev s" by (cases "rev s") auto
  show ?thesis by (simp add: strip_def 1 2)
qed

lemma strip_space: "strip (CHR '' '' # s) = strip s"
  by (simp add: strip_def isspace_space)

lemma word_edges: "is_word w \<Longrightarrow> \<not> isspace (hd w) \<and> \<not> isspace (last w)"
  by (auto simp: is_word_def list_ex_iff)

text \<open>
  The test line of \<open>draw_wrapped_text\<close>, \<open>f"{line} {word}".strip()\<close>, is the test line of
  \<open>calculate_content_height\<close>, \<open>' '.join(current_line + [word])\<close>.
\<close>

lemma strip_test_line:
  assumes "list_all is_word cur" "is_word w"
  shows "strip (join cur @ CHR '' '' # w) = join (cur @ [w])"
proof (cases "cur = []")
  case True
  with assms show ?thesis
    by (simp add: strip_space strip_id word_edges is_word_def)
next
  case False
  let ?s = "join (cur @ [w])"
  have ws: "list_all is_word (cur @ [w])" using assms by simp
  have "?s \<noteq> []" using join_Nil_iff [OF ws] by simp
  moreover have "\<not> isspace (hd ?s)"
    using hd_join [OF ws] False hd_word [OF assms(1)] by (simp add: word_edges)
  moreover have "\<not> isspace (last ?s)"
    using last_join [OF ws] assms by (simp add: word_edges)
  ultimately have "strip ?s = ?s" by (rule strip_id)
  then show ?thesis using False by (simp add: join_snoc)
qed

section \<open>The two word-wrap loops\<close>

lemma content_wrap_loop_words:
  "list_all is_word ws \<Longrightarrow> list_all is_word cur \<Longrightarrow>
   list_all is_word (snd (content_wrap_loop f mw ws lines cur))"
  by (induction ws arbitrary: lines cur) (auto simp: Let_def)

lemma draw_wrap_loop_eq:
  "list_all is_word ws \<Longrightarrow> list_all is_word cur \<Longrightarrow>
   draw_wrap_loop f mw ws lines (join cur) =
     (fst (content_wrap_loop f mw ws lines cur), join (snd (content_wrap_loop f mw ws lines cur)))"
proof (induction ws arbitrary: lines cur)
  case Nil
  show ?case by simp
next
  case (Cons w ws)
  then have w: "is_word w" and ws: "list_all is_word ws" by simp_all
  have t: "strip (join cur @ CHR '' '' # w) = join (cur @ [w])"
    using strip_test_line [OF Cons.prems(2) w] .
  show ?case
  proof (cases "getlength f (join (cur @ [w])) \<le> mw")
    case True
    have "list_all is_word (cur @ [w])" using Cons.prems(2) w by simp
    from Cons.IH [OF ws this, of lines] True t show ?thesis by (simp add: Let_def)
  next
    case False
    have "list_all is_word [w]" using w by simp
    from Cons.IH [OF ws this, of "lines @ [join cur]"] False t show ?thesis by (simp add: Let_def)
  qed
qed

lemma draw_lines_content_lines: "draw_lines f t mw = content_lines f t mw"
proof -
  let ?r = "content_wrap_loop f mw (split t) [] []"
  have e: "draw_wrap_loop f mw (split t) [] [] = (fst ?r, join (snd ?r))"
    using draw_wrap_loop_eq [OF split_words, of "[]" f mw t "[]"] by simp
  have "list_all is_word (snd ?r)"
    by (rule content_wrap_loop_words [OF split_words]) simp
  then have n: "join (snd ?r) = [] \<longleftrightarrow> snd ?r = []" by (rule join_Nil_iff)
  show ?thesis
    by (simp add: draw_lines_def content_lines_def e n split: prod.splits)
qed

lemma content_wrap_loop_fits:
  "list_all is_word ws \<Longrightarrow> list_all (line_fits f mw) lines \<Longrightarrow> line_fits f mw (join cur) \<Longrightarrow>
   list_all (line_fits f mw) (fst (content_wrap_loop f mw ws lines cur)) \<and>
   line_fits f mw (join (snd (content_wrap_loop f mw ws lines cur)))"
proof (induction ws arbitrary: lines cur)
  case Nil
  then show ?case by simp
next
  case (Cons w ws)
  then have w: "is_word w" and ws: "list_all is_word ws" by simp_all
  show ?case
  proof (cases "getlength f (join (cur @ [w])) \<le> mw")
    case True
    then have "line_fits f mw (join (cur @ [w]))" by (simp add: line_fits_def)
    from Cons.IH [OF ws Cons.prems(2) this] True show ?thesis by (simp add: Let_def)
  next
    case False
    have 1: "list_all (line_fits f mw) (lines @ [join cur])" using Cons.prems by simp
    have 2: "line_fits f mw (join [w])"
      using w by (simp add: line_fits_def split_def split_from_word)
    from Cons.IH [OF ws 1 2] False show ?thesis by (simp add: Let_def)
  qed
qed

lemma content_wrap_loop_concat:
  "list_all is_word ws \<Longrightarrow> list_all is_word cur \<Longrightarrow>
   concat (map split (fst (content_wrap_loop f mw ws lines cur)))
     @ snd (content_wrap_loop f mw ws lines cur)
   = concat (map split lines) @ cur @ ws"
proof (induction ws arbitrary: lines cur)
  case Nil
  show ?case by simp
next
  case (Cons w ws)
  then have w: "is_word w" and ws: "list_all is_word ws" by simp_all
  show ?case
  proof (cases "getlength f (join (cur @ [w])) \<le> mw")
    case True
    have "list_all is_word (cur @ [w])" using Cons.prems(2) w by simp
    from Cons.IH [OF ws this, of lines] True show ?thesis by (simp add: Let_def)
  next
    case False
    have "list_all is_word [w]" using w by simp
    from Cons.IH [OF ws this, of "lines @ [join cur]"] False split_join [OF Cons.prems(2)]
    show ?thesis by (simp add: Let_def)
  qed
qed

lemma content_lines_fit:
  assumes "getlength f [] \<le> mw"
  shows "list_all (line_fits f mw) (content_lines f t mw)"
proof -
  let ?r = "content_wrap_loop f mw (split t) [] []"
  have "line_fits f mw (join [])" using assms by (simp add: line_fits_def)
  from content_wrap_loop_fits [OF split_words _ this, of "[]" t]
  have "list_all (line_fits f mw) (fst ?r) \<and> line_fits f mw (join (snd ?r))" by simp
  then show ?thesis by (auto simp: content_lines_def split: prod.splits)
qed

lemma content_lines_concat: "concat (map split (content_lines f t mw)) = split t"
proof -
  let ?r = "content_wrap_loop f mw (split t) [] []"
  have c: "concat (map split (fst ?r)) @ snd ?r = split t"
    using content_wrap_loop_concat [OF split_words, of "[]" f mw t "[]"] by simp
  have "list_all is_word (snd ?r)"
    by (rule content_wrap_loop_words [OF split_words]) simp
  then have "split (join (snd ?r)) = snd ?r" by (rule split_join)
  with c show ?thesis by (auto simp: content_lines_def split: prod.splits)
qed

text \<open>
  A first word wider than \<open>max_width\<close> closes the still empty line: the loop appends
  \<open>' '.join([])\<close> to \<open>lines\<close> before it starts the line of the word.
\<close>

lemma single_overflow:
  assumes "is_word w" "\<not> getlength f w \<le> mw"
  shows "content_lines f w mw = [[], w]"
  using assms by (simp add: content_lines_def split_def split_from_word is_word_def)

text \<open>
  C9: for every text, font and maximal width, the word-wrap of \<open>calculate_content_height\<close>
  and the word-wrap of \<open>draw_wrapped_text\<close> produce the same lines in the same order.
\<close>

theorem wrap_loops_agree: "content_lines f t max_width = draw_lines f t max_width"
  by (simp add: draw_lines_content_lines)

text \<open>
  C1: for every text and font, and every \<open>max_width\<close> that is not below the width of the
  empty string (every pixel width \<open>max_width \<ge> 0\<close>, for a font that measures the empty
  string as 0), every line emitted by either word-wrap is within \<open>max_width\<close> or consists
  of exactly one word; and for every \<open>max_width\<close> the words of the emitted lines, in
  order, are the words of the text.
\<close>

theorem wrap_correct:
  "(getlength f [] \<le> max_width \<longrightarrow>
      list_all (line_fits f max_width) (content_lines f t max_width)
      \<and> list_all (line_fits f max_width) (draw_lines f t max_width))
   \<and> concat (map split (content_lines f t max_width)) = split t
   \<and> concat (map split (draw_lines f t max_width)) = split t"
  by (simp add: draw_lines_content_lines content_lines_fit content_lines_concat)

text \<open>C1 at the text \<open>AAAA BBBB CCCC\<close> and the width of \<open>AAAA BBBB\<close>.\<close>

theorem wrap_correct_witness:
  "getlength (fixed_width_font 20) [] \<le> 90
   \<and> list_all (line_fits (fixed_width_font 20) 90)
       (content_lines (fixed_width_font 20) ''AAAA BBBB CCCC'' 90)
   \<and> list_all (line_fits (fixed_width_font 20) 90)
       (draw_lines (fixed_width_font 20) ''AAAA BBBB CCCC'' 90)
   \<and> concat (map split (content_lines (fixed_width_font 20) ''AAAA BBBB CCCC'' 90))
       = split ''AAAA BBBB CCCC''
   \<and> concat (map split (draw_lines (fixed_width_font 20) ''AAAA BBBB CCCC'' 90))
       = split ''AAAA BBBB CCCC''"
proof -
  have h: "getlength (fixed_width_font 20) [] \<le> 90" by (simp add: fixed_width_font_def)
  show ?thesis
    using h wrap_correct [of "fixed_width_font 20" 90 "''AAAA BBBB CCCC''"] by simp
qed

text \<open>
  C4: a text of one word wider than \<open>max_width\<close> should give the one line of that word.
  Both word-wraps give two lines, the empty line and then the word.
\<close>

theorem single_long_word_lines:
  "\<not> getlength (fixed_width_font 20) ''Supercalifragilistic'' \<le> 100
   \<and> content_lines (fixed_width_font 20) ''Supercalifragilistic'' 100
       = [[], ''Supercalifragilistic'']
   \<and> draw_lines (fixed_width_font 20) ''Supercalifragilistic'' 100
       = [[], ''Supercalifragilistic'']"
  by (simp add: content_lines_def draw_lines_def split_def strip_def isspace_def
      fixed_width_font_def)

section \<open>The height estimate and the search for a font size\<close>

lemma calculate_content_height_resolves:
  "tt s \<noteq> None \<Longrightarrow> \<exists>h. calculate_content_height tt c s mw = Inr h"
  by (auto simp: calculate_content_height_def Let_def split: prod.splits)

lemma calculate_content_height_fails:
  "tt s = None \<Longrightarrow> calculate_content_height tt c s mw = Inl (InvalidFontSize s)"
  by (simp add: calculate_content_height_def)

lemma find_loop_bounds:
  assumes "\<And>s. lo \<le> s \<Longrightarrow> s \<le> hi \<Longrightarrow> \<exists>h. calculate_content_height tt c s mw = Inr h"
    and "lo \<le> low" and "high \<le> hi"
  shows "\<exists>b ps. find_loop tt c mw mh n low high best probes = Inr (b, ps)
           \<and> (b = best \<or> (low \<le> b \<and> b \<le> high))
           \<and> length ps \<le> length probes + n"
  using assms(2,3)
proof (induction n arbitrary: low high best probes)
  case 0
  show ?case by simp
next
  case (Suc n)
  show ?case
  proof (cases "low > high")
    case True
    then show ?thesis by simp
  next
    case False
    let ?mid = "(low + high) div 2"
    have m: "low \<le> ?mid" "?mid \<le> high" using False by auto
    then obtain h where h: "calculate_content_height tt c ?mid mw = Inr h"
      using assms(1) [of ?mid] Suc.prems by auto
    show ?thesis
    proof (cases "h \<le> mh")
      case True
      have "lo \<le> ?mid + 1" using m Suc.prems by linarith
      from Suc.IH [OF this Suc.prems(2), of ?mid "probes @ [?mid]"]
      obtain b ps where
        "find_loop tt c mw mh n (?mid + 1) high ?mid (probes @ [?mid]) = Inr (b, ps)"
        "b = ?mid \<or> (?mid + 1 \<le> b \<and> b \<le> high)" "length ps \<le> length (probes @ [?mid]) + n"
        by blast
      with m h True False show ?thesis by (auto simp: Let_def)
    next
      case nofit: False
      have "?mid - 1 \<le> hi" using m Suc.prems by linarith
      from Suc.IH [OF Suc.prems(1) this, of best "probes @ [?mid]"]
      obtain b ps where
        "find_loop tt c mw mh n low (?mid - 1) best (probes @ [?mid]) = Inr (b, ps)"
        "b = best \<or> (low \<le> b \<and> b \<le> ?mid - 1)" "length ps \<le> length (probes @ [?mid]) + n"
        by blast
      with m h nofit False show ?thesis by (auto simp: Let_def)
    qed
  qed
qed

text \<open>\<open>best_size\<close> is the initial value or a size whose estimated height fits.\<close>

lemma find_loop_best:
  "find_loop tt c mw mh n low high best probes = Inr (b, ps) \<Longrightarrow>
   b = best \<or> (\<exists>h. calculate_content_height tt c b mw = Inr h \<and> h \<le> mh)"
proof (induction n arbitrary: low high best probes)
  case 0
  then show ?case by simp
next
  case (Suc n)
  show ?case
  proof (cases "low > high")
    case True
    with Suc.prems show ?thesis by simp
  next
    case False
    let ?mid = "(low + high) div 2"
    from Suc.prems False obtain h where h: "calculate_content_height tt c ?mid mw = Inr h"
      by (auto simp: Let_def split: sum.splits)
    show ?thesis
    proof (cases "h \<le> mh")
      case True
      with Suc.prems False h
      have "find_loop tt c mw mh n (?mid + 1) high ?mid (probes @ [?mid]) = Inr (b, ps)"
        by (simp add: Let_def)
      from Suc.IH [OF this] h True show ?thesis by auto
    next
      case nofit: False
      with Suc.prems False h
      have "find_loop tt c mw mh n low (?mid - 1) best (probes @ [?mid]) = Inr (b, ps)"
        by (simp add: Let_def)
      from Suc.IH [OF this] show ?thesis .
    qed
  qed
qed

lemma halve_upper: "low \<le> high \<Longrightarrow> high + 1 - low < 2 ^ Suc n \<Longrightarrow>
    high + 1 - ((low + high) div 2 + 1) < (2::int) ^ n"
  by (simp add: algebra_simps)

lemma halve_lower: "low \<le> high \<Longrightarrow> high + 1 - low < 2 ^ Suc n \<Longrightarrow>
    ((low + high) div 2 - 1) + 1 - low < (2::int) ^ n"
  by (simp add: algebra_simps)

text \<open>
  The invariant of the binary search under monotone heights: every size below \<open>low\<close>
  fits, no size above \<open>high\<close> fits, and \<open>best_size\<close> is \<open>low - 1\<close> once \<open>low\<close> has moved.
\<close>

lemma find_loop_largest:
  assumes H: "\<And>s. lo \<le> s \<Longrightarrow> s \<le> hi \<Longrightarrow> calculate_content_height tt c s mw = Inr (H s)"
    and mono: "\<And>s t. lo \<le> s \<Longrightarrow> s \<le> t \<Longrightarrow> t \<le> hi \<Longrightarrow> H s \<le> H t"
    and "lo \<le> low" and "high \<le> hi" and "low \<le> high + 1"
    and "\<And>s. lo \<le> s \<Longrightarrow> s < low \<Longrightarrow> H s \<le> mh"
    and "\<And>s. high < s \<Longrightarrow> s \<le> hi \<Longrightarrow> \<not> H s \<le> mh"
    and "best = (if low = lo then lo else low - 1)"
    and "high + 1 - low < 2 ^ n"
    and "lo \<le> hi"
  shows "\<exists>b ps. find_loop tt c mw mh n low high best probes = Inr (b, ps)
           \<and> lo \<le> b \<and> b \<le> hi
           \<and> (\<forall>s. lo \<le> s \<and> s \<le> hi \<and> H s \<le> mh \<longrightarrow> s \<le> b \<and> H b \<le> mh)
           \<and> ((\<forall>s. lo \<le> s \<and> s \<le> hi \<longrightarrow> \<not> H s \<le> mh) \<longrightarrow> b = lo)"
  using assms(3-9)
proof (induction n arbitrary: low high best probes)
  case 0
  then have gt: "high < low" by simp
  have r: "find_loop tt c mw mh 0 low high best probes = Inr (best, probes)" by simp
  show ?case
  proof (cases "low = lo")
    case True
    with 0 gt have "best = lo" "\<And>s. lo \<le> s \<Longrightarrow> s \<le> hi \<Longrightarrow> \<not> H s \<le> mh" by auto
    with r assms(10) show ?thesis by auto
  next
    case False
    with 0 have b: "best = low - 1" "lo \<le> best" "best \<le> hi" "H best \<le> mh" by auto
    have "\<And>s. lo \<le> s \<Longrightarrow> s \<le> hi \<Longrightarrow> H s \<le> mh \<Longrightarrow> s \<le> best"
      using 0(5) gt b(1) by (metis not_less zle_diff1_eq order.strict_trans2)
    with r b show ?thesis by auto
  qed
next
  case (Suc n)
  show ?case
  proof (cases "low > high")
    case gt: True
    have r: "find_loop tt c mw mh (Suc n) low high best probes = Inr (best, probes)"
      using gt by simp
    show ?thesis
    proof (cases "low = lo")
      case True
      with Suc.prems gt have "best = lo" "\<And>s. lo \<le> s \<Longrightarrow> s \<le> hi \<Longrightarrow> \<not> H s \<le> mh" by auto
      with r assms(10) show ?thesis by auto
    next
      case False
      with Suc.prems have b: "best = low - 1" "lo \<le> best" "best \<le> hi" "H best \<le> mh" by auto
      have "\<And>s. lo \<le> s \<Longrightarrow> s \<le> hi \<Longrightarrow> H s \<le> mh \<Longrightarrow> s \<le> best"
        using Suc.prems(5) gt b(1) by (metis not_less zle_diff1_eq order.strict_trans2)
      with r b show ?thesis by auto
    qed
  next
    case le: False
    let ?mid = "(low + high) div 2"
    have m: "low \<le> ?mid" "?mid \<le> high" using le by auto
    have mr: "lo \<le> ?mid" "?mid \<le> hi" using m Suc.prems by auto
    have h: "calculate_content_height tt c ?mid mw = Inr (H ?mid)" using H mr by simp
    show ?thesis
    proof (cases "H ?mid \<le> mh")
      case True
      have step: "find_loop tt c mw mh (Suc n) low high best probes
                  = find_loop tt c mw mh n (?mid + 1) high ?mid (probes @ [?mid])"
        using le h True by (simp add: Let_def)
      have 1: "lo \<le> ?mid + 1" using mr by simp
      have 3: "?mid + 1 \<le> high + 1" using m by simp
      have 4: "\<And>s. lo \<le> s \<Longrightarrow> s < ?mid + 1 \<Longrightarrow> H s \<le> mh"
      proof -
        fix s assume "lo \<le> s" "s < ?mid + 1"
        then have "H s \<le> H ?mid" using mono [of s ?mid] mr by simp
        with True show "H s \<le> mh" by simp
      qed
      have 6: "?mid = (if ?mid + 1 = lo then lo else ?mid + 1 - 1)" using mr by simp
      have 7: "high + 1 - (?mid + 1) < 2 ^ n"
        using halve_upper [of low high n] le Suc.prems(7) by simp
      from Suc.IH [OF 1 Suc.prems(2) 3 4 Suc.prems(5) 6 7, of "probes @ [?mid]"] step
      show ?thesis by simp
    next
      case False
      have step: "find_loop tt c mw mh (Suc n) low high best probes
                  = find_loop tt c mw mh n low (?mid - 1) best (probes @ [?mid])"
        using le h False by (simp add: Let_def)
      have 2: "?mid - 1 \<le> hi" using mr by simp
      have 3: "low \<le> ?mid - 1 + 1" using m by simp
      have 5: "\<And>s. ?mid - 1 < s \<Longrightarrow> s \<le> hi \<Longrightarrow> \<not> H s \<le> mh"
      proof -
        fix s assume "?mid - 1 < s" "s \<le> hi"
        then have "H ?mid \<le> H s" using mono [of ?mid s] mr by simp
        with False show "\<not> H s \<le> mh" by simp
      qed
      have 7: "?mid - 1 + 1 - low < 2 ^ n"
        using halve_lower [of low high n] le Suc.prems(7) by simp
      from Suc.IH [OF Suc.prems(1) 2 3 Suc.prems(4) 5 Suc.prems(6) 7, of "probes @ [?mid]"] step
      show ?thesis by simp
    qed
  qed
qed

lemma fixed_width_one_letter:
  assumes "20 \<le> s" "s \<le> 40"
  shows "calculate_content_height fixed_width ''a'' s 980 = Inr (real_of_int (s + s div 4))"
  using assms
  by (simp add: calculate_content_height_def fixed_width_def fixed_width_font_def
      content_lines_def split_def isspace_def)

text \<open>
  C5: where the font resolves, \<open>calculate_content_height\<close> returns 0 for zero lines, and
  otherwise \<open>n * line_height + (n - 1) * spacing\<close> with \<open>n\<close> the number of wrapped lines,
  \<open>line_height = ascent + descent\<close> and \<open>spacing = line_height * 0.2\<close>.
\<close>

theorem calculate_content_height_formula:
  assumes "tt font_size = Some f"
  shows "calculate_content_height tt content font_size max_width =
     Inr (if content_lines f content max_width = [] then 0
          else real (length (content_lines f content max_width))
                 * real_of_int (fst (getmetrics f) + snd (getmetrics f))
               + (real (length (content_lines f content max_width)) - 1)
                 * (real_of_int (fst (getmetrics f) + snd (getmetrics f)) * (2 / 10)))"
  using assms
  by (simp add: calculate_content_height_def Let_def CONFIG_def split: prod.splits)

text \<open>C5 at the text \<open>AAAA BBBB CCCC\<close>: two lines of height 25 and one spacing of 5.\<close>

theorem calculate_content_height_formula_witness:
  "fixed_width 20 = Some (fixed_width_font 20)
   \<and> calculate_content_height fixed_width ''AAAA BBBB CCCC'' 20 90 = Inr 55"
proof -
  have h: "fixed_width 20 = Some (fixed_width_font 20)" by (simp add: fixed_width_def)
  have l: "content_lines (fixed_width_font 20) ''AAAA BBBB CCCC'' 90 = [''AAAA BBBB'', ''CCCC'']"
    by (simp add: content_lines_def split_def isspace_def fixed_width_font_def)
  have m: "getmetrics (fixed_width_font 20) = (20, 5)" by (simp add: fixed_width_font_def)
  show ?thesis
    using h calculate_content_height_formula
      [of fixed_width 20 "fixed_width_font 20" "''AAAA BBBB CCCC''" 90]
    by (simp add: l m)
qed

text \<open>
  C6: where the height estimate succeeds at every size of the configured range,
  \<open>find_optimal_font_size\<close> returns (the loop is bounded, so the function is total), its
  result lies in the range 20..40, and it has called \<open>calculate_content_height\<close> at most
  10 times.
\<close>

theorem find_optimal_font_size_terminates:
  assumes "\<And>s. content_font_size_min CONFIG \<le> s \<Longrightarrow> s \<le> content_font_size_max CONFIG \<Longrightarrow>
             \<exists>h. calculate_content_height tt content s max_width = Inr h"
  shows "\<exists>best probes.
           find_optimal_font_size_probes tt content max_width max_height = Inr (best, probes)
           \<and> find_optimal_font_size tt content max_width max_height = Inr best
           \<and> content_font_size_min CONFIG \<le> best \<and> best \<le> content_font_size_max CONFIG
           \<and> 20 \<le> best \<and> best \<le> 40
           \<and> length probes \<le> 10"
proof -
  from find_loop_bounds [of "content_font_size_min CONFIG" "content_font_size_max CONFIG"
      tt content max_width "content_font_size_min CONFIG" "content_font_size_max CONFIG"
      max_height 10 "content_font_size_min CONFIG" "[]"] assms
  obtain b ps where
    "find_loop tt content max_width max_height 10 (content_font_size_min CONFIG)
       (content_font_size_max CONFIG) (content_font_size_min CONFIG) [] = Inr (b, ps)"
    "b = content_font_size_min CONFIG
       \<or> (content_font_size_min CONFIG \<le> b \<and> b \<le> content_font_size_max CONFIG)"
    "length ps \<le> 10"
    by auto
  then show ?thesis
    by (auto simp: find_optimal_font_size_def find_optimal_font_size_probes_def CONFIG_def)
qed

text \<open>C6 at a one-letter text and the budget 30: four calls, and the size 24.\<close>

theorem find_optimal_font_size_terminates_witness:
  "find_optimal_font_size_probes fixed_width ''a'' 980 30 = Inr (24, [30, 24, 27, 25])
   \<and> find_optimal_font_size fixed_width ''a'' 980 30 = Inr 24"
proof -
  have r: "\<And>s. content_font_size_min CONFIG \<le> s \<Longrightarrow> s \<le> content_font_size_max CONFIG \<Longrightarrow>
             \<exists>h. calculate_content_height fixed_width ''a'' s 980 = Inr h"
    by (rule calculate_content_height_resolves) (simp add: fixed_width_def)
  have e: "find_optimal_font_size_probes fixed_width ''a'' 980 30 = Inr (24, [30, 24, 27, 25])"
    by (simp add: find_optimal_font_size_probes_def CONFIG_def numeral_eq_Suc
        fixed_width_one_letter)
  show ?thesis
    using find_optimal_font_size_terminates [OF r, of 30] e by auto
qed

text \<open>
  C2: where every size of the range resolves and the estimated height \<open>H\<close> does not
  decrease with the font size, \<open>find_optimal_font_size\<close> returns the largest size of the
  range whose estimated height is within \<open>max_height\<close>, and the smallest size of the
  range when no size fits.
\<close>

theorem find_optimal_font_size_largest:
  assumes "\<And>s. content_font_size_min CONFIG \<le> s \<Longrightarrow> s \<le> content_font_size_max CONFIG \<Longrightarrow>
             calculate_content_height tt content s max_width = Inr (H s)"
    and "\<And>s t. content_font_size_min CONFIG \<le> s \<Longrightarrow> s \<le> t \<Longrightarrow>
             t \<le> content_font_size_max CONFIG \<Longrightarrow> H s \<le> H t"
  shows "\<exists>best. find_optimal_font_size tt content max_width max_height = Inr best
           \<and> content_font_size_min CONFIG \<le> best \<and> best \<le> content_font_size_max CONFIG
           \<and> (\<forall>s. content_font_size_min CONFIG \<le> s \<and> s \<le> content_font_size_max CONFIG
                   \<and> H s \<le> max_height \<longrightarrow> s \<le> best \<and> H best \<le> max_height)
           \<and> ((\<forall>s. content_font_size_min CONFIG \<le> s \<and> s \<le> content_font_size_max CONFIG
                   \<longrightarrow> \<not> H s \<le> max_height) \<longrightarrow> best = content_font_size_min CONFIG)"
proof -
  let ?lo = "content_font_size_min CONFIG" and ?hi = "content_font_size_max CONFIG"
  have f: "?hi + 1 - ?lo < 2 ^ 10" and o: "?lo \<le> ?hi" and o1: "?lo \<le> ?hi + 1"
    by (simp_all add: CONFIG_def)
  have i: "?lo = (if ?lo = ?lo then ?lo else ?lo - 1)" by simp
  from find_loop_largest [of ?lo ?hi tt content max_width H ?lo ?hi max_height ?lo 10 "[]",
      OF assms(1) assms(2) order_refl order_refl o1 _ _ i f o]
  obtain b ps where
    "find_loop tt content max_width max_height 10 ?lo ?hi ?lo [] = Inr (b, ps)"
    "?lo \<le> b" "b \<le> ?hi"
    "\<forall>s. ?lo \<le> s \<and> s \<le> ?hi \<and> H s \<le> max_height \<longrightarrow> s \<le> b \<and> H b \<le> max_height"
    "(\<forall>s. ?lo \<le> s \<and> s \<le> ?hi \<longrightarrow> \<not> H s \<le> max_height) \<longrightarrow> b = ?lo"
    by auto
  then show ?thesis
    by (auto simp: find_optimal_font_size_def find_optimal_font_size_probes_def)
qed

text \<open>
  C2 at a one-letter text, whose estimated height at size \<open>s\<close> is \<open>s + s div 4\<close>: within
  the budget 30 the largest size is 24.
\<close>

theorem find_optimal_font_size_largest_witness:
  "calculate_content_height fixed_width ''a'' 24 980 = Inr 30
   \<and> calculate_content_height fixed_width ''a'' 25 980 = Inr 31
   \<and> find_optimal_font_size fixed_width ''a'' 980 30 = Inr 24"
proof -
  have 1: "\<And>s. content_font_size_min CONFIG \<le> s \<Longrightarrow> s \<le> content_font_size_max CONFIG \<Longrightarrow>
             calculate_content_height fixed_width ''a'' s 980 = Inr (real_of_int (s + s div 4))"
    by (rule fixed_width_one_letter) (simp_all add: CONFIG_def)
  have 2: "\<And>s t. content_font_size_min CONFIG \<le> s \<Longrightarrow> s \<le> t \<Longrightarrow>
             t \<le> content_font_size_max CONFIG \<Longrightarrow>
             real_of_int (s + s div 4) \<le> real_of_int (t + t div 4)"
  proof -
    fix s t :: int
    assume "s \<le> t"
    then have "s div 4 \<le> t div 4" by (simp add: zdiv_mono1)
    with \<open>s \<le> t\<close> show "real_of_int (s + s div 4) \<le> real_of_int (t + t div 4)" by simp
  qed
  have e: "find_optimal_font_size fixed_width ''a'' 980 30 = Inr 24"
    by (simp add: find_optimal_font_size_def find_optimal_font_size_probes_def CONFIG_def
        numeral_eq_Suc fixed_width_one_letter)
  have a: "calculate_content_height fixed_width ''a'' 24 980 = Inr 30"
    using fixed_width_one_letter [of 24] by simp
  have b: "calculate_content_height fixed_width ''a'' 25 980 = Inr 31"
    using fixed_width_one_letter [of 25] by simp
  show ?thesis
    using find_optimal_font_size_largest [of fixed_width "''a''" 980
        "\<lambda>s. real_of_int (s + s div 4)" 30, OF 1 2] a b e
    by simp
qed

text \<open>
  C7, as stated, fails: when no font size can be loaded, the \<open>ValueError\<close> of
  \<open>calculate_content_height\<close> at the first size tried, 30, leaves
  \<open>find_optimal_font_size\<close>, which has no handler for it.
\<close>

theorem find_optimal_font_size_error_counterexample:
  "find_optimal_font_size no_font ''a'' 980 30 = Inl (InvalidFontSize 30)"
  by (simp add: find_optimal_font_size_def find_optimal_font_size_probes_def CONFIG_def
      numeral_eq_Suc calculate_content_height_def no_font_def)

lemma calculate_content_height_same:
  "tt s = tt' s \<Longrightarrow> calculate_content_height tt c s mw = calculate_content_height tt' c s mw"
  by (simp add: calculate_content_height_def)

text \<open>
  The search with a font family \<open>tt\<close>, against the search with a family \<open>tt'\<close> that
  loads the same fonts and more: the two go the same way up to the first size that \<open>tt\<close>
  cannot load, and there the search with \<open>tt\<close> ends with the error of that size.
\<close>

lemma find_loop_first_failure:
  assumes agree: "\<And>s f. tt s = Some f \<Longrightarrow> tt' s = Some f"
  shows "find_loop tt' c mw mh n low high best ps = Inr (b, ps') \<Longrightarrow>
     \<exists>qs. ps' = ps @ qs \<and>
       (case find (\<lambda>s. tt s = None) qs of
          None \<Rightarrow> find_loop tt c mw mh n low high best ps = Inr (b, ps')
        | Some s \<Rightarrow> find_loop tt c mw mh n low high best ps = Inl (InvalidFontSize s))"
proof (induction n arbitrary: low high best ps)
  case 0
  then have "ps' = ps @ [] \<and>
      (case find (\<lambda>s. tt s = None) [] of
         None \<Rightarrow> find_loop tt c mw mh 0 low high best ps = Inr (b, ps')
       | Some s \<Rightarrow> find_loop tt c mw mh 0 low high best ps = Inl (InvalidFontSize s))"
    by simp
  then show ?case by blast
next
  case (Suc n)
  show ?case
  proof (cases "low > high")
    case True
    with Suc.prems have "ps' = ps @ [] \<and>
      (case find (\<lambda>s. tt s = None) [] of
         None \<Rightarrow> find_loop tt c mw mh (Suc n) low high best ps = Inr (b, ps')
       | Some s \<Rightarrow> find_loop tt c mw mh (Suc n) low high best ps = Inl (InvalidFontSize s))"
      by simp
    then show ?thesis by blast
  next
    case False
    let ?mid = "(low + high) div 2"
    from Suc.prems False obtain h where h: "calculate_content_height tt' c ?mid mw = Inr h"
      by (auto simp: Let_def split: sum.splits)
    define low' where "low' = (if h \<le> mh then ?mid + 1 else low)"
    define high' where "high' = (if h \<le> mh then high else ?mid - 1)"
    define best' where "best' = (if h \<le> mh then ?mid else best)"
    have step': "find_loop tt' c mw mh (Suc n) low high best ps
                 = find_loop tt' c mw mh n low' high' best' (ps @ [?mid])"
      using False h by (simp add: Let_def low'_def high'_def best'_def)
    with Suc.prems have "find_loop tt' c mw mh n low' high' best' (ps @ [?mid]) = Inr (b, ps')"
      by simp
    from Suc.IH [OF this] obtain qs where
      qs: "ps' = (ps @ [?mid]) @ qs"
        "case find (\<lambda>s. tt s = None) qs of
           None \<Rightarrow> find_loop tt c mw mh n low' high' best' (ps @ [?mid]) = Inr (b, ps')
         | Some s \<Rightarrow> find_loop tt c mw mh n low' high' best' (ps @ [?mid])
                       = Inl (InvalidFontSize s)"
      by blast
    have p: "ps' = ps @ (?mid # qs)" using qs(1) by simp
    show ?thesis
    proof (cases "tt ?mid")
      case None
      then have "find_loop tt c mw mh (Suc n) low high best ps = Inl (InvalidFontSize ?mid)"
        using False by (simp add: Let_def calculate_content_height_fails)
      with None p have "ps' = ps @ (?mid # qs) \<and>
        (case find (\<lambda>s. tt s = None) (?mid # qs) of
           None \<Rightarrow> find_loop tt c mw mh (Suc n) low high best ps = Inr (b, ps')
         | Some s \<Rightarrow> find_loop tt c mw mh (Suc n) low high best ps = Inl (InvalidFontSize s))"
        by simp
      then show ?thesis by blast
    next
      case (Some f)
      then have "tt ?mid = tt' ?mid" using agree by simp
      then have "calculate_content_height tt c ?mid mw = Inr h"
        using h calculate_content_height_same [of tt ?mid tt' c mw] by simp
      then have st: "find_loop tt c mw mh (Suc n) low high best ps
                 = find_loop tt c mw mh n low' high' best' (ps @ [?mid])"
        using False by (simp add: Let_def low'_def high'_def best'_def)
      from Some p qs(2) have "ps' = ps @ (?mid # qs) \<and>
        (case find (\<lambda>s. tt s = None) (?mid # qs) of
           None \<Rightarrow> find_loop tt c mw mh (Suc n) low high best ps = Inr (b, ps')
         | Some s \<Rightarrow> find_loop tt c mw mh (Suc n) low high best ps = Inl (InvalidFontSize s))"
        by (simp add: st del: find_loop.simps split: option.splits)
      then show ?thesis by blast
    qed
  qed
qed

text \<open>
  C7, amended: where every size of the configured range resolves,
  \<open>find_optimal_font_size\<close> yields a font size of the range, and the smallest size when no
  size fits. Where a size that the search tries does not resolve, the \<open>ValueError\<close> of
  \<open>calculate_content_height\<close> for the first such size is the outcome: with \<open>probes'\<close> the
  sizes tried when all fonts load (a family \<open>tt'\<close> that loads every font of \<open>tt\<close>), the
  outcome with \<open>tt\<close> is the error of the first size of \<open>probes'\<close> that \<open>tt\<close> cannot load,
  and the same size as with \<open>tt'\<close> when there is none. In particular the first size
  tried is the middle of the range.
\<close>

theorem find_optimal_font_size_degrades:
  "((\<forall>s. content_font_size_min CONFIG \<le> s \<and> s \<le> content_font_size_max CONFIG
          \<longrightarrow> tt s \<noteq> None) \<longrightarrow>
      (\<exists>best. find_optimal_font_size tt content max_width max_height = Inr best
         \<and> content_font_size_min CONFIG \<le> best \<and> best \<le> content_font_size_max CONFIG
         \<and> ((\<forall>s h. content_font_size_min CONFIG \<le> s \<and> s \<le> content_font_size_max CONFIG
                    \<and> calculate_content_height tt content s max_width = Inr h
                    \<longrightarrow> \<not> h \<le> max_height)
              \<longrightarrow> best = content_font_size_min CONFIG)))
   \<and> ((\<forall>s f. tt s = Some f \<longrightarrow> tt' s = Some f)
        \<and> find_optimal_font_size_probes tt' content max_width max_height = Inr (best', probes')
       \<longrightarrow>
        (case find (\<lambda>s. tt s = None) probes' of
           None \<Rightarrow> find_optimal_font_size tt content max_width max_height = Inr best'
         | Some s \<Rightarrow> find_optimal_font_size tt content max_width max_height
                       = Inl (InvalidFontSize s)))
   \<and> (tt ((content_font_size_min CONFIG + content_font_size_max CONFIG) div 2) = None \<longrightarrow>
        find_optimal_font_size tt content max_width max_height
          = Inl (InvalidFontSize
                   ((content_font_size_min CONFIG + content_font_size_max CONFIG) div 2)))"
proof (intro conjI impI)
  let ?lo = "content_font_size_min CONFIG" and ?hi = "content_font_size_max CONFIG"
  assume r: "\<forall>s. ?lo \<le> s \<and> s \<le> ?hi \<longrightarrow> tt s \<noteq> None"
  then have "\<And>s. ?lo \<le> s \<Longrightarrow> s \<le> ?hi \<Longrightarrow>
      \<exists>h. calculate_content_height tt content s max_width = Inr h"
    by (simp add: calculate_content_height_resolves)
  from find_loop_bounds [of ?lo ?hi tt content max_width ?lo ?hi max_height 10 ?lo "[]", OF this]
  obtain b ps where
    l: "find_loop tt content max_width max_height 10 ?lo ?hi ?lo [] = Inr (b, ps)"
    and b: "b = ?lo \<or> (?lo \<le> b \<and> b \<le> ?hi)"
    by auto
  have "?lo \<le> ?hi" by (simp add: CONFIG_def)
  with b have "?lo \<le> b" "b \<le> ?hi" by auto
  moreover have "(\<forall>s h. ?lo \<le> s \<and> s \<le> ?hi
      \<and> calculate_content_height tt content s max_width = Inr h
      \<longrightarrow> \<not> h \<le> max_height) \<longrightarrow> b = ?lo"
    using find_loop_best [OF l] b by auto
  ultimately
  show "\<exists>best. find_optimal_font_size tt content max_width max_height = Inr best
         \<and> ?lo \<le> best \<and> best \<le> ?hi
         \<and> ((\<forall>s h. ?lo \<le> s \<and> s \<le> ?hi
                    \<and> calculate_content_height tt content s max_width = Inr h
                    \<longrightarrow> \<not> h \<le> max_height) \<longrightarrow> best = ?lo)"
    using l by (auto simp: find_optimal_font_size_def find_optimal_font_size_probes_def)
next
  assume a: "(\<forall>s f. tt s = Some f \<longrightarrow> tt' s = Some f)
        \<and> find_optimal_font_size_probes tt' content max_width max_height = Inr (best', probes')"
  then have agree: "\<And>s f. tt s = Some f \<Longrightarrow> tt' s = Some f" by blast
  from a have "find_loop tt' content max_width max_height 10 (content_font_size_min CONFIG)
      (content_font_size_max CONFIG) (content_font_size_min CONFIG) [] = Inr (best', probes')"
    by (simp add: find_optimal_font_size_probes_def)
  from find_loop_first_failure [of tt tt', OF agree this]
  show "case find (\<lambda>s. tt s = None) probes' of
           None \<Rightarrow> find_optimal_font_size tt content max_width max_height = Inr best'
         | Some s \<Rightarrow> find_optimal_font_size tt content max_width max_height
                       = Inl (InvalidFontSize s)"
    by (auto simp: find_optimal_font_size_def find_optimal_font_size_probes_def
        split: option.splits)
next
  assume "tt ((content_font_size_min CONFIG + content_font_size_max CONFIG) div 2) = None"
  then show "find_optimal_font_size tt content max_width max_height
          = Inl (InvalidFontSize
                   ((content_font_size_min CONFIG + content_font_size_max CONFIG) div 2))"
    by (simp add: find_optimal_font_size_def find_optimal_font_size_probes_def numeral_eq_Suc
        calculate_content_height_fails CONFIG_def)
qed

text \<open>
  C7, amended, at a font family that resolves (budget 3: nothing fits, the size is 20),
  at the missing font file (the error of the first size tried, 30), and at a family
  without the size 35 alone (budget 3000: the sizes tried are 30, 35, 38, 39, 40, and the
  outcome is the error of 35).
\<close>

theorem find_optimal_font_size_degrades_witness:
  "find_optimal_font_size fixed_width ''a'' 980 3 = Inr 20
   \<and> no_font 30 = None
   \<and> find_optimal_font_size no_font ''a'' 980 3 = Inl (InvalidFontSize 30)
   \<and> find_optimal_font_size_probes fixed_width ''a'' 980 3000 = Inr (40, [30, 35, 38, 39, 40])
   \<and> fixed_width_except 35 30 = Some (fixed_width_font 30)
   \<and> fixed_width_except 35 35 = None
   \<and> find_optimal_font_size (fixed_width_except 35) ''a'' 980 3000 = Inl (InvalidFontSize 35)"
proof -
  have r: "\<forall>s. content_font_size_min CONFIG \<le> s \<and> s \<le> content_font_size_max CONFIG
          \<longrightarrow> fixed_width s \<noteq> None"
    by (simp add: fixed_width_def)
  have n: "no_font ((content_font_size_min CONFIG + content_font_size_max CONFIG) div 2) = None"
    by (simp add: no_font_def)
  have e: "find_optimal_font_size fixed_width ''a'' 980 3 = Inr 20"
    by (simp add: find_optimal_font_size_def find_optimal_font_size_probes_def CONFIG_def
        numeral_eq_Suc fixed_width_one_letter)
  have a: "\<forall>s f. fixed_width_except 35 s = Some f \<longrightarrow> fixed_width s = Some f"
    by (simp add: fixed_width_except_def fixed_width_def)
  have p: "find_optimal_font_size_probes fixed_width ''a'' 980 3000
           = Inr (40, [30, 35, 38, 39, 40])"
    by (simp add: find_optimal_font_size_probes_def CONFIG_def numeral_eq_Suc
        fixed_width_one_letter)
  have f: "find (\<lambda>s. fixed_width_except 35 s = None) [30, 35, 38, 39, 40] = Some 35"
    by (simp add: fixed_width_except_def)
  have x: "find_optimal_font_size (fixed_width_except 35) ''a'' 980 3000
           = Inl (InvalidFontSize 35)"
    using find_optimal_font_size_degrades
      [of "fixed_width_except 35" "''a''" 980 3000 fixed_width 40 "[30, 35, 38, 39, 40]"]
      a p f
    by simp
  show ?thesis
    using find_optimal_font_size_degrades [of fixed_width "''a''" 980 3] r e
      find_optimal_font_size_degrades [of no_font "''a''" 980 3] n p x
    by (simp add: CONFIG_def no_font_def fixed_width_except_def)
qed

section \<open>The cursor of \<open>draw_wrapped_text\<close>\<close>

lemma draw_loop_y:
  "fst (draw_loop f sp ls y ds)
     = y + (\<Sum>l\<leftarrow>ls. real_of_int (bbox_bottom (getbbox f l)) + sp)"
  by (induction ls arbitrary: y ds) (simp_all add: Let_def)

lemma sum_list_plus_const:
  "(\<Sum>l\<leftarrow>ls. g l + (sp::real)) = (\<Sum>l\<leftarrow>ls. g l) + real (length ls) * sp"
  by (induction ls) (simp_all add: algebra_simps)

lemma content_lines_no_words: "split t = [] \<Longrightarrow> content_lines f t mw = []"
  by (simp add: content_lines_def)

lemma content_lines_some_words: "split t \<noteq> [] \<Longrightarrow> content_lines f t mw \<noteq> []"
  using content_lines_concat [of f t mw] by auto

text \<open>
  C10: the cursor returned by \<open>draw_wrapped_text\<close> is the starting \<open>y\<close> plus, for each
  emitted line, the bottom of its bounding box plus \<open>line_spacing\<close>, so the spacing is
  added once per line, also after the last one; a text with a word has at least one
  line; a text without words leaves the cursor where it was and draws nothing.
\<close>

theorem draw_wrapped_text_cursor:
  "fst (draw_wrapped_text f t y max_width line_spacing)
     = y + (\<Sum>line\<leftarrow>draw_lines f t max_width.
              real_of_int (bbox_bottom (getbbox f line)) + line_spacing)
   \<and> fst (draw_wrapped_text f t y max_width line_spacing)
     = y + (\<Sum>line\<leftarrow>draw_lines f t max_width. real_of_int (bbox_bottom (getbbox f line)))
         + real (length (draw_lines f t max_width)) * line_spacing
   \<and> (split t \<noteq> [] \<longrightarrow> draw_lines f t max_width \<noteq> [])
   \<and> (split t = [] \<longrightarrow> draw_wrapped_text f t y max_width line_spacing = (y, []))"
  by (simp add: draw_wrapped_text_def draw_loop_y sum_list_plus_const draw_lines_content_lines
      content_lines_no_words content_lines_some_words)

text \<open>
  C10 at the text \<open>AAAA BBBB CCCC\<close> (two lines with bottom 20, spacing 4, from 100 to
  148) and at the empty text.
\<close>

theorem draw_wrapped_text_cursor_witness:
  "split ''AAAA BBBB CCCC'' \<noteq> []
   \<and> fst (draw_wrapped_text (fixed_width_font 20) ''AAAA BBBB CCCC'' 100 90 4) = 148
   \<and> split '''' = []
   \<and> draw_wrapped_text (fixed_width_font 20) '''' 100 90 4 = (100, [])"
proof -
  have l: "draw_lines (fixed_width_font 20) ''AAAA BBBB CCCC'' 90 = [''AAAA BBBB'', ''CCCC'']"
    by (simp add: draw_lines_def split_def strip_def isspace_def fixed_width_font_def)
  have b: "\<And>s. bbox_bottom (getbbox (fixed_width_font 20) s) = 20"
    by (simp add: bbox_bottom_def fixed_width_font_def)
  have 1: "split ''AAAA BBBB CCCC'' \<noteq> []" by (simp add: split_def isspace_def)
  have 2: "split '''' = []" by (simp add: split_def)
  show ?thesis
    using draw_wrapped_text_cursor [of "fixed_width_font 20" "''AAAA BBBB CCCC''" 100 90 4]
      draw_wrapped_text_cursor [of "fixed_width_font 20" "''''" 100 90 4] 1 2
    by (simp add: l b)
qed

section \<open>The budget of the body text\<close>





















section \<open>Posts that lack a required field\<close>

lemma missing_field_None:
  "missing_field p = None \<Longrightarrow> \<exists>t c. p ''title'' = Some t \<and> p ''content'' = Some c"
  by (auto simp: missing_field_def required_fields_def split: if_splits)

lemma load_posts_loop_missing:
  "list_ex (\<lambda>p. missing_field p \<noteq> None) posts \<Longrightarrow>
   \<exists>i field. i < length posts \<and> missing_field (posts ! i) = Some field
     \<and> (\<forall>j<i. missing_field (posts ! j) = None)
     \<and> load_posts_loop k posts = Inl (MissingField (k + i + 1) field)"
proof (induction posts arbitrary: k)
  case Nil
  then show ?case by simp
next
  case (Cons p ps)
  show ?case
  proof (cases "missing_field p")
    case (Some field)
    then have "0 < length (p # ps) \<and> missing_field ((p # ps) ! 0) = Some field
        \<and> (\<forall>j<0. missing_field ((p # ps) ! j) = None)
        \<and> load_posts_loop k (p # ps) = Inl (MissingField (k + 0 + 1) field)"
      by simp
    then show ?thesis by blast
  next
    case None
    with Cons.prems have "list_ex (\<lambda>p. missing_field p \<noteq> None) ps" by simp
    from Cons.IH [OF this, of "k + 1"] obtain i field where
      i: "i < length ps" "missing_field (ps ! i) = Some field"
        "\<forall>j<i. missing_field (ps ! j) = None"
        "load_posts_loop (k + 1) ps = Inl (MissingField (k + 1 + i + 1) field)"
      by blast
    from missing_field_None [OF None] obtain t c where
      tc: "p ''title'' = Some t" "p ''content'' = Some c" by blast
    have a: "\<forall>j<Suc i. missing_field ((p # ps) ! j) = None"
      using None i(3) by (auto simp: nth_Cons split: nat.splits)
    have "Suc i < length (p # ps) \<and> missing_field ((p # ps) ! Suc i) = Some field
        \<and> (\<forall>j<Suc i. missing_field ((p # ps) ! j) = None)
        \<and> load_posts_loop k (p # ps) = Inl (MissingField (k + Suc i + 1) field)"
      using i None tc a by simp
    then show ?thesis by blast
  qed
qed

text \<open>
  C8, as stated, fails: in a batch of a complete post and a post without \<open>image\<close>, the
  complete post could be processed, yet the run ends with the error of the second post
  and processes no post.
\<close>

theorem missing_field_counterexample:
  "missing_field complete_post = None
   \<and> process_ok complete_post = Inr ()
   \<and> main process_ok (Posts [complete_post, incomplete_post])
       = Inl (MissingField 2 ''image'')"
  by (simp add: main_def load_posts_def missing_field_def required_fields_def
      complete_post_def incomplete_post_def process_ok_def)

text \<open>
  C8, amended: for every batch in which some post lacks a required field, \<open>load_posts\<close>
  raises the error of the first such post (numbered from 1) and its first missing field,
  before any post is processed, and this error ends \<open>main\<close>: no post of the batch is
  processed, whatever the processing of a post would do.
\<close>

theorem missing_field_aborts_batch:
  assumes "list_ex (\<lambda>p. missing_field p \<noteq> None) posts"
  shows "\<exists>i field. i < length posts \<and> missing_field (posts ! i) = Some field
           \<and> (\<forall>j<i. missing_field (posts ! j) = None)
           \<and> load_posts (Posts posts) = Inl (MissingField (i + 1) field)
           \<and> main process (Posts posts) = Inl (MissingField (i + 1) field)"
  using load_posts_loop_missing [OF assms, of 0]
  by (auto simp: load_posts_def main_def)

text \<open>C8, amended, at the batch of a complete post and a post without \<open>image\<close>.\<close>

theorem missing_field_aborts_batch_witness:
  "list_ex (\<lambda>p. missing_field p \<noteq> None) [complete_post, incomplete_post]
   \<and> missing_field incomplete_post = Some ''image''
   \<and> load_posts (Posts [complete_post, incomplete_post]) = Inl (MissingField 2 ''image'')
   \<and> main process_ok (Posts [complete_post, incomplete_post])
       = Inl (MissingField 2 ''image'')"
proof -
  have h: "list_ex (\<lambda>p. missing_field p \<noteq> None) [complete_post, incomplete_post]"
    by (simp add: missing_field_def required_fields_def complete_post_def incomplete_post_def)
  have e: "missing_field incomplete_post = Some ''image''"
    "missing_field complete_post = None"
    by (simp_all add: missing_field_def required_fields_def complete_post_def
        incomplete_post_def)
  from missing_field_aborts_batch [OF h, of process_ok] obtain i field where
    r: "i < length [complete_post, incomplete_post]"
      "missing_field ([complete_post, incomplete_post] ! i) = Some field"
      "load_posts (Posts [complete_post, incomplete_post]) = Inl (MissingField (i + 1) field)"
      "main process_ok (Posts [complete_post, incomplete_post])
         = Inl (MissingField (i + 1) field)"
    by blast
  from r(1,2) e have "i = 1 \<and> field = ''image''"
    by (cases i) auto
  with r h e show ?thesis by simp
qed

end
